theory Spec2Isabelle
  imports Main
begin

section \<open>The request server of request-server.go\<close>

text \<open>
  A shallow embedding of \<^verbatim>\<open>request-server.go\<close>: the registry of open requests
  (\<^verbatim>\<open>nextRequest\<close>, \<^verbatim>\<open>getRequest\<close>, \<^verbatim>\<open>closeRequest\<close>), the loop of a packet
  worker (\<^verbatim>\<open>packetWorker\<close>), first for one worker that serves its packets one after
  the other, and then the session (\<^verbatim>\<open>Serve\<close>) with its reader, its workers and the
  channel between them.

  The file calls code that lives elsewhere in the package: the packet types and the
  codec (\<^verbatim>\<open>makePacket\<close>), the transport (\<^verbatim>\<open>recvPacket\<close>, \<^verbatim>\<open>sendPacket\<close>), the
  \<^verbatim>\<open>Request\<close> type with \<^verbatim>\<open>newRequest\<close>, \<^verbatim>\<open>populate\<close> and \<^verbatim>\<open>handleRequest\<close>, and two
  constants. They are parameters of the model (the record \<open>env\<close>), so a theorem about
  \<open>env\<close> holds for whatever those functions compute. Three things are fixed instead, as
  the spec describes them, and marked where they are defined: the status reply that
  \<^verbatim>\<open>statusFromError\<close> builds and \<^verbatim>\<open>sendError\<close> sends, and what a call of
  \<^verbatim>\<open>populate\<close> on a nil request does.
\<close>

subsection \<open>Errors, packets and replies\<close>

text \<open>
  Go's \<^verbatim>\<open>error\<close> values. \<^verbatim>\<open>syscall.EBADF\<close> is the one error the file names; \<open>EOF\<close>
  is the error with which Go's readers report the end of a stream; \<open>ErrClosed\<close> is the
  error of a read on a connection that was closed on this side; \<open>Failure\<close> stands for
  every other error. A nil \<^verbatim>\<open>error\<close> is \<open>None\<close> of type \<open>error option\<close>.
\<close>

datatype error = EBADF | EOF | ErrClosed | Failure string

text \<open>
  The decoded packets, by the cases of the type switch of \<^verbatim>\<open>packetWorker\<close>, in its
  order: the four concrete types it names, then any other type with \<^verbatim>\<open>getHandle\<close>,
  then any other type with \<^verbatim>\<open>getPath\<close>, then the rest. The first number of the last
  three is the packet type byte, the next is the request identifier \<^verbatim>\<open>id()\<close>. The
  session-init packet carries a protocol version and no request identifier.
\<close>

datatype packet =
    Init
  | Open nat string
  | Opendir nat string
  | Close nat string
  | HasHandle nat nat string
  | HasPath nat nat string
  | Other nat nat

text \<open>
  What a worker hands to \<^verbatim>\<open>sendPacket\<close>: \<^verbatim>\<open>sshFxVersionPacket{version, nil}\<close>,
  \<^verbatim>\<open>sshFxpHandlePacket{id, handle}\<close>, a status packet, or whatever packet
  \<^verbatim>\<open>handleRequest\<close> returned (\<open>Response\<close>, with its identifier and payload).
\<close>

datatype reply =
    Version nat
  | HandleReply nat string
  | Status nat "error option"
  | Response nat string

fun pkt_id :: "packet \<Rightarrow> nat option" where
  "pkt_id Init = None"
| "pkt_id (Open i p) = Some i"
| "pkt_id (Opendir i p) = Some i"
| "pkt_id (Close i h) = Some i"
| "pkt_id (HasHandle k i h) = Some i"
| "pkt_id (HasPath k i p) = Some i"
| "pkt_id (Other k i) = Some i"

fun reply_id :: "reply \<Rightarrow> nat option" where
  "reply_id (Version v) = None"
| "reply_id (HandleReply i h) = Some i"
| "reply_id (Status i e) = Some i"
| "reply_id (Response i d) = Some i"

subsection \<open>The server state\<close>

text \<open>
  Of the \<^verbatim>\<open>Request\<close> struct the file reads one field, \<^verbatim>\<open>Filepath\<close>; the other
  fields are the extension \<open>'m\<close> of the record.
\<close>

record request =
  Filepath :: string

text \<open>
  \<^verbatim>\<open>RequestServer\<close>: the map \<^verbatim>\<open>openRequests\<close>, and of the connection the replies
  written so far (\<open>sent\<close>) and whether \<^verbatim>\<open>conn.Close()\<close> was called. The map holds
  pointers in Go; each pointer is created by \<^verbatim>\<open>newRequest\<close> and stored under one key,
  so a request updated through its pointer is the map entry updated in place.
\<close>

record 'm server =
  openRequests :: "string \<Rightarrow> 'm request_scheme option"
  sent :: "reply list"
  connClosed :: bool

text \<open>
  The code outside the file. \<open>transmit\<close> is the outcome of the transport write inside
  \<^verbatim>\<open>sendPacket\<close> (nil or an error), which may depend on the whole state of the
  connection. \<open>handleRequest\<close> returns the request as the handler left it and either
  the error or the reply packet of Go's pair \<^verbatim>\<open>(rpkt, err)\<close>.
\<close>

record 'm env =
  newRequest :: "string \<Rightarrow> 'm request_scheme"
  populate :: "'m request_scheme \<Rightarrow> packet \<Rightarrow> 'm request_scheme"
  handleRequest :: "'m request_scheme \<Rightarrow> 'm request_scheme \<times> (error + reply)"
  transmit :: "'m server \<Rightarrow> reply \<Rightarrow> error option"
  makePacket :: "nat \<times> nat list \<Rightarrow> error + packet"
  sftpServerWorkerCount :: nat
  sftpProtocolVersion :: nat

subsection \<open>The registry\<close>

definition nextRequest :: "'m server \<Rightarrow> 'm request_scheme \<Rightarrow> string \<times> 'm server" where
  "nextRequest rs r =
     (Filepath r, rs\<lparr>openRequests := (openRequests rs)(Filepath r \<mapsto> r)\<rparr>)"

definition getRequest :: "'m server \<Rightarrow> string \<Rightarrow> 'm request_scheme option \<times> bool" where
  "getRequest rs handle = (openRequests rs handle, openRequests rs handle \<noteq> None)"

definition closeRequest :: "'m server \<Rightarrow> string \<Rightarrow> 'm server" where
  "closeRequest rs handle =
     (if openRequests rs handle \<noteq> None
      then rs\<lparr>openRequests := (openRequests rs)(handle := None)\<rparr>
      else rs)"

subsection \<open>Sending\<close>

definition sendPacket :: "'m env \<Rightarrow> 'm server \<Rightarrow> reply \<Rightarrow> error option \<times> 'm server" where
  "sendPacket env rs rpkt =
     (case transmit env rs rpkt of
        None \<Rightarrow> (None, rs\<lparr>sent := sent rs @ [rpkt]\<rparr>)
      | Some err \<Rightarrow> (Some err, rs))"

text \<open>
  Modelled from the spec: \<^verbatim>\<open>statusFromError\<close> and \<^verbatim>\<open>sendError\<close> are not in
  request-server.go. The first builds the generic status reply (a success or failure
  code) for the request identifier of the packet it is given; the second sends it.
\<close>

definition statusFromError :: "nat \<Rightarrow> error option \<Rightarrow> reply" where
  "statusFromError i err = Status i err"

definition sendError :: "'m env \<Rightarrow> 'm server \<Rightarrow> nat \<Rightarrow> error option \<Rightarrow> error option \<times> 'm server" where
  "sendError env rs i err = sendPacket env rs (statusFromError i err)"

subsection \<open>The packet worker\<close>

text \<open>
  How one pass through the body of the worker's loop ends: it goes on to the next packet,
  the worker returns the error of a failed write, or the pass calls a method on a nil
  \<^verbatim>\<open>*Request\<close>.
\<close>

datatype step = Next | Return error | NilRequest

definition afterSend :: "error option \<times> 'm server \<Rightarrow> step \<times> 'm server" where
  "afterSend res = (case res of (None, rs) \<Rightarrow> (Next, rs) | (Some err, rs) \<Rightarrow> (Return err, rs))"

text \<open>
  Modelled from the spec: \<^verbatim>\<open>populate\<close> is not in request-server.go. The worker calls
  it on the pointer \<^verbatim>\<open>getRequest\<close> returned, which is nil when the handle was not
  found. On a request it stores the packet's context in the request (the \<open>populate\<close> of
  \<open>env\<close>); on nil it dereferences an absent value, which in Go is a run-time panic
  (\<open>None\<close>).
\<close>

definition populateOn ::
  "'m env \<Rightarrow> 'm request_scheme option \<Rightarrow> packet \<Rightarrow> 'm request_scheme option" where
  "populateOn env request pkt =
     (case request of None \<Rightarrow> None | Some r \<Rightarrow> Some (populate env r pkt))"

text \<open>
  Lines 154 to 161, after the switch has set \<^verbatim>\<open>handle\<close>. The status built when the
  lookup fails is assigned to \<^verbatim>\<open>rpkt\<close> (\<open>rpkt0\<close> here) and never read: the code goes
  on to \<^verbatim>\<open>request.populate(pkt)\<close> whether or not the request was found, and the result of
  \<^verbatim>\<open>handleRequest\<close> is assigned to \<^verbatim>\<open>rpkt\<close> over it.
\<close>

definition serveRequest ::
  "'m env \<Rightarrow> 'm server \<Rightarrow> nat \<Rightarrow> packet \<Rightarrow> string \<Rightarrow> step \<times> 'm server" where
  "serveRequest env rs i pkt handle =
     (let (request, ok) = getRequest rs handle;
          rpkt0 = (if \<not> ok then Some (statusFromError i (Some EBADF)) else None)
      in case populateOn env request pkt of
           None \<Rightarrow> (NilRequest, rs)
         | Some r1 \<Rightarrow>
             (let (r2, res) = handleRequest env r1;
                  rs2 = rs\<lparr>openRequests := (openRequests rs)(handle \<mapsto> r2)\<rparr>;
                  rpkt = (case res of
                            Inl err \<Rightarrow> statusFromError i (Some err)
                          | Inr p \<Rightarrow> p)
              in afterSend (sendPacket env rs2 rpkt)))"

text \<open>The body of the loop of \<^verbatim>\<open>packetWorker\<close> for one packet.\<close>

fun dispatch :: "'m env \<Rightarrow> 'm server \<Rightarrow> packet \<Rightarrow> step \<times> 'm server" where
  "dispatch env rs Init =
     afterSend (sendPacket env rs (Version (sftpProtocolVersion env)))"
| "dispatch env rs (Open i path) =
     (let (handle, rs1) = nextRequest rs (newRequest env path)
      in afterSend (sendPacket env rs1 (HandleReply i handle)))"
| "dispatch env rs (Opendir i path) =
     (let (handle, rs1) = nextRequest rs (newRequest env path)
      in afterSend (sendPacket env rs1 (HandleReply i handle)))"
| "dispatch env rs (Close i handle) =
     (let rs1 = closeRequest rs handle
      in afterSend (sendError env rs1 i None))"
| "dispatch env rs (HasHandle k i handle) =
     serveRequest env rs i (HasHandle k i handle) handle"
| "dispatch env rs (HasPath k i path) =
     (let (handle, rs1) = nextRequest rs (newRequest env path)
      in serveRequest env rs1 i (HasPath k i path) handle)"
| "dispatch env rs (Other k i) =
     serveRequest env rs i (Other k i) []"

text \<open>
  How a worker ends, given the packets it takes from the queue until the queue is closed
  and empty: it returns nil, or it returns the error of a failed write and leaves the
  packets behind it in the queue, or it panics.
\<close>

datatype ending = Returned "error option" "packet list" | Panicked

fun packetWorker :: "'m env \<Rightarrow> 'm server \<Rightarrow> packet list \<Rightarrow> ending \<times> 'm server" where
  "packetWorker env rs [] = (Returned None [], rs)"
| "packetWorker env rs (pkt # queue) =
     (case dispatch env rs pkt of
        (Next, rs1) \<Rightarrow> packetWorker env rs1 queue
      | (Return err, rs1) \<Rightarrow> (Returned (Some err) queue, rs1)
      | (NilRequest, rs1) \<Rightarrow> (Panicked, rs1))"

subsection \<open>The session\<close>

text \<open>
  \<^verbatim>\<open>Serve\<close> starts \<^verbatim>\<open>sftpServerWorkerCount\<close> goroutines that run \<^verbatim>\<open>packetWorker\<close> and then
  reads, decodes and queues packets itself. The goroutines share the channel
  \<^verbatim>\<open>pktChan\<close>, the map \<^verbatim>\<open>openRequests\<close> (under its lock), the requests the map points to,
  and the connection. The session is modelled as a state and one step function for each
  goroutine; an execution is any sequence of steps, so every interleaving of the
  goroutines is an execution. A step is one access to what the goroutines share,
  together with the local computation that leads to it.

  Where the reader stands in \<^verbatim>\<open>Serve\<close>: at \<^verbatim>\<open>recvPacket\<close> (line 109), at the send
  \<^verbatim>\<open>rs.pktChan <- pkt\<close> (line 113), at \<^verbatim>\<open>close(rs.pktChan)\<close> (line 116), at \<^verbatim>\<open>wg.Wait()\<close>
  (line 117), or returned (line 118). The last three carry the variable \<^verbatim>\<open>err\<close> that
  \<^verbatim>\<open>Serve\<close> returns.
\<close>

datatype reader_pc =
    R_recv
  | R_send packet
  | R_close "error option"
  | R_wait "error option"
  | R_done "error option"

text \<open>
  Where a worker stands: waiting at \<^verbatim>\<open>range rs.pktChan\<close>; holding a packet before the
  switch; before \<^verbatim>\<open>getRequest\<close> (line 154) with the packet, its identifier and the handle;
  before \<^verbatim>\<open>populate\<close> (line 156) and before \<^verbatim>\<open>handleRequest\<close> (line 157) with the pointer
  that \<^verbatim>\<open>getRequest\<close> returned (an address, or nil); before \<^verbatim>\<open>sendPacket\<close> with the
  reply; returned from \<^verbatim>\<open>packetWorker\<close> with an error, before \<^verbatim>\<open>rs.conn.Close()\<close>
  (line 100); gone.
\<close>

datatype worker_pc =
    W_idle
  | W_got packet
  | W_lookup packet nat string
  | W_populate packet nat "nat option"
  | W_handle nat nat
  | W_send reply
  | W_closeConn error
  | W_exited

text \<open>
  The state of a session: the results that the calls of \<^verbatim>\<open>recvPacket\<close> still to come
  return while the connection is open, each a triple \<^verbatim>\<open>(pktType, pktBytes, err)\<close>; the
  packets in the channel; the reader and the workers; the map \<^verbatim>\<open>openRequests\<close> from
  handles to pointers; the requests by address (a request is never freed while a worker
  may hold its pointer); the replies written; whether \<^verbatim>\<open>conn.Close()\<close> was called;
  whether a goroutine has panicked, which ends the process.
\<close>

record 'm session =
  conn_in :: "(nat \<times> nat list \<times> error option) list"
  pktChan :: "packet list"
  reader :: reader_pc
  pool :: "worker_pc list"
  registry :: "string \<Rightarrow> nat option"
  heap :: "'m request_scheme list"
  wire :: "reply list"
  connShut :: bool
  crashed :: bool

text \<open>
  \<^verbatim>\<open>NewRequestServer\<close> and the start of \<^verbatim>\<open>Serve\<close>: an empty map, an empty channel,
  the workers started.
\<close>

definition newSession :: "'m env \<Rightarrow> (nat \<times> nat list \<times> error option) list \<Rightarrow> 'm session" where
  "newSession env recvs =
     \<lparr>conn_in = recvs, pktChan = [], reader = R_recv,
      pool = replicate (sftpServerWorkerCount env) W_idle,
      registry = Map.empty, heap = [], wire = [], connShut = False, crashed = False\<rparr>"

text \<open>The server as the sequential model above sees it: each handle with its request.\<close>

definition view :: "'m session \<Rightarrow> 'm server" where
  "view s =
     \<lparr>openRequests = (\<lambda>handle. map_option (\<lambda>a. heap s ! a) (registry s handle)),
      sent = wire s, connClosed = connShut s\<rparr>"

text \<open>
  The channel is closed by \<^verbatim>\<open>Serve\<close> alone, at line 116: it is closed when the reader is
  past that line. It was made with capacity \<^verbatim>\<open>sftpServerWorkerCount\<close> (line 63).
\<close>

fun chanClosed :: "reader_pc \<Rightarrow> bool" where
  "chanClosed (R_wait err) = True"
| "chanClosed (R_done err) = True"
| "chanClosed pc = False"

text \<open>
  \<^verbatim>\<open>nextRequest\<close> on pointers: the new request gets a fresh address and the map points
  to it under the request's \<^verbatim>\<open>Filepath\<close>.
\<close>

definition storeRequest :: "'m session \<Rightarrow> 'm request_scheme \<Rightarrow> string \<times> 'm session" where
  "storeRequest s r =
     (Filepath r,
      s\<lparr>heap := heap s @ [r], registry := (registry s)(Filepath r \<mapsto> length (heap s))\<rparr>)"

text \<open>
  One step of the reader. \<^verbatim>\<open>recvPacket\<close> on a connection that a worker has closed
  returns an error (line 100: \<^verbatim>\<open>rs.conn.Close() // shuts down recvPacket\<close>); on an open
  connection it returns the next result, and blocks (no step) while there is none. A
  read error breaks the loop with \<^verbatim>\<open>err\<close> set; a decode error breaks it too, but its
  \<^verbatim>\<open>err\<close> is the new variable of \<^verbatim>\<open>pkt, err := makePacket(...)\<close>, and the \<^verbatim>\<open>err\<close> of
  \<^verbatim>\<open>Serve\<close> stays as \<^verbatim>\<open>recvPacket\<close> set it. The send blocks while the channel is full.
  \<^verbatim>\<open>wg.Wait()\<close> blocks until every worker is gone.
\<close>

fun readerStep :: "'m env \<Rightarrow> 'm session \<Rightarrow> reader_pc \<Rightarrow> 'm session option" where
  "readerStep env s R_recv =
     (if connShut s then Some (s\<lparr>reader := R_close (Some ErrClosed)\<rparr>)
      else case conn_in s of
        [] \<Rightarrow> None
      | (pktType, pktBytes, err) # rest \<Rightarrow>
          (if err \<noteq> None then Some (s\<lparr>conn_in := rest, reader := R_close err\<rparr>)
           else case makePacket env (pktType, pktBytes) of
                  Inl err' \<Rightarrow> Some (s\<lparr>conn_in := rest, reader := R_close err\<rparr>)
                | Inr pkt \<Rightarrow> Some (s\<lparr>conn_in := rest, reader := R_send pkt\<rparr>)))"
| "readerStep env s (R_send pkt) =
     (if length (pktChan s) < sftpServerWorkerCount env
      then Some (s\<lparr>pktChan := pktChan s @ [pkt], reader := R_recv\<rparr>)
      else None)"
| "readerStep env s (R_close err) = Some (s\<lparr>reader := R_wait err\<rparr>)"
| "readerStep env s (R_wait err) =
     (if list_all (\<lambda>pc. pc = W_exited) (pool s) then Some (s\<lparr>reader := R_done err\<rparr>) else None)"
| "readerStep env s (R_done err) = None"

text \<open>
  One step of a worker that stands at \<open>pc\<close>: where it stands next and the state it leaves,
  or \<open>None\<close> when it cannot move. A worker at the channel takes the packet at its head;
  when the channel is empty it waits, or returns nil if the channel is closed. The cases
  of the switch are those of \<open>dispatch\<close>, with \<^verbatim>\<open>nextRequest\<close> and \<^verbatim>\<open>closeRequest\<close> as
  one step each (they hold the lock). The lines after the switch are those of
  \<open>serveRequest\<close>, one step for each call: \<^verbatim>\<open>getRequest\<close>, \<^verbatim>\<open>populate\<close>,
  \<^verbatim>\<open>handleRequest\<close>, \<^verbatim>\<open>sendPacket\<close>; other goroutines can move between them, but not
  inside a call. The status built at line 155 when the request is not found is never
  read and has no place here. The call of \<^verbatim>\<open>populate\<close> on nil panics, as in
  \<open>populateOn\<close>; the worker is gone and so is the process. A worker whose write failed
  returns the error, closes the connection (line 100) and is gone.
\<close>

fun workerMove :: "'m env \<Rightarrow> 'm session \<Rightarrow> worker_pc \<Rightarrow> (worker_pc \<times> 'm session) option" where
  "workerMove env s W_idle =
     (case pktChan s of
        pkt # rest \<Rightarrow> Some (W_got pkt, s\<lparr>pktChan := rest\<rparr>)
      | [] \<Rightarrow> if chanClosed (reader s) then Some (W_exited, s) else None)"
| "workerMove env s (W_got Init) =
     Some (W_send (Version (sftpProtocolVersion env)), s)"
| "workerMove env s (W_got (Open i path)) =
     (let (handle, s1) = storeRequest s (newRequest env path)
      in Some (W_send (HandleReply i handle), s1))"
| "workerMove env s (W_got (Opendir i path)) =
     (let (handle, s1) = storeRequest s (newRequest env path)
      in Some (W_send (HandleReply i handle), s1))"
| "workerMove env s (W_got (Close i handle)) =
     Some (W_send (statusFromError i None), s\<lparr>registry := (registry s)(handle := None)\<rparr>)"
| "workerMove env s (W_got (HasHandle k i handle)) =
     Some (W_lookup (HasHandle k i handle) i handle, s)"
| "workerMove env s (W_got (HasPath k i path)) =
     (let (handle, s1) = storeRequest s (newRequest env path)
      in Some (W_lookup (HasPath k i path) i handle, s1))"
| "workerMove env s (W_got (Other k i)) =
     Some (W_lookup (Other k i) i [], s)"
| "workerMove env s (W_lookup pkt i handle) =
     Some (W_populate pkt i (registry s handle), s)"
| "workerMove env s (W_populate pkt i None) =
     Some (W_exited, s\<lparr>crashed := True\<rparr>)"
| "workerMove env s (W_populate pkt i (Some a)) =
     Some (W_handle i a, s\<lparr>heap := (heap s)[a := populate env (heap s ! a) pkt]\<rparr>)"
| "workerMove env s (W_handle i a) =
     (let (r2, res) = handleRequest env (heap s ! a);
          rpkt = (case res of
                    Inl err \<Rightarrow> statusFromError i (Some err)
                  | Inr p \<Rightarrow> p)
      in Some (W_send rpkt, s\<lparr>heap := (heap s)[a := r2]\<rparr>))"
| "workerMove env s (W_send rpkt) =
     (case transmit env (view s) rpkt of
        None \<Rightarrow> Some (W_idle, s\<lparr>wire := wire s @ [rpkt]\<rparr>)
      | Some err \<Rightarrow> Some (W_closeConn err, s))"
| "workerMove env s (W_closeConn err) = Some (W_exited, s\<lparr>connShut := True\<rparr>)"
| "workerMove env s W_exited = None"

text \<open>
  The goroutines, and the step of one of them. After a panic nothing moves.
\<close>

datatype thread = Reader | Worker nat

definition stepOf :: "'m env \<Rightarrow> thread \<Rightarrow> 'm session \<Rightarrow> 'm session option" where
  "stepOf env th s =
     (if crashed s then None
      else case th of
        Reader \<Rightarrow> readerStep env s (reader s)
      | Worker w \<Rightarrow>
          (if w < length (pool s)
           then case workerMove env s (pool s ! w) of
                  None \<Rightarrow> None
                | Some (pc, s1) \<Rightarrow> Some (s1\<lparr>pool := (pool s1)[w := pc]\<rparr>)
           else None))"

text \<open>
  An execution: the goroutines that move, in order. The result is \<open>None\<close> when one of
  them cannot move when its turn comes, so \<open>run env sched s = Some s1\<close> says that the
  session can go from \<open>s\<close> to \<open>s1\<close> by exactly these steps.
\<close>

fun run :: "'m env \<Rightarrow> thread list \<Rightarrow> 'm session \<Rightarrow> 'm session option" where
  "run env [] s = Some s"
| "run env (th # sched) s =
     (case stepOf env th s of None \<Rightarrow> None | Some s1 \<Rightarrow> run env sched s1)"

text \<open>A state in which no goroutine can move.\<close>

definition final :: "'m env \<Rightarrow> 'm session \<Rightarrow> bool" where
  "final env s =
     list_all (\<lambda>th. stepOf env th s = None) (Reader # map Worker [0..<length (pool s)])"

text \<open>
  What \<^verbatim>\<open>Serve\<close> has returned after an execution from the start of a session: \<open>None\<close>
  when it has not returned (the execution is not one, or \<^verbatim>\<open>Serve\<close> is still running,
  blocked, or dead with the process), and else the error it returned.
\<close>

definition Serve ::
  "'m env \<Rightarrow> thread list \<Rightarrow> (nat \<times> nat list \<times> error option) list \<Rightarrow> error option option" where
  "Serve env sched recvs =
     (case run env sched (newSession env recvs) of
        None \<Rightarrow> None
      | Some s \<Rightarrow> (case reader s of R_done err \<Rightarrow> Some err | _ \<Rightarrow> None))"

text \<open>
  The steps left in a session once reading has stopped are bounded by its weight: each
  packet in the channel costs a worker at most six steps, and each worker and the reader
  have the steps to where they end.
\<close>

fun rank :: "worker_pc \<Rightarrow> nat" where
  "rank W_exited = 0"
| "rank (W_closeConn err) = 1"
| "rank W_idle = 1"
| "rank (W_send rpkt) = 2"
| "rank (W_handle i a) = 3"
| "rank (W_populate pkt i a) = 4"
| "rank (W_lookup pkt i handle) = 5"
| "rank (W_got pkt) = 6"

fun recorded :: "reader_pc \<Rightarrow> error option option" where
  "recorded (R_close err) = Some err"
| "recorded (R_wait err) = Some err"
| "recorded (R_done err) = Some err"
| "recorded pc = None"

fun readerRank :: "reader_pc \<Rightarrow> nat" where
  "readerRank (R_close err) = 2"
| "readerRank (R_wait err) = 1"
| "readerRank pc = 0"

definition weight :: "'m session \<Rightarrow> nat" where
  "weight s = 6 * length (pktChan s) + sum_list (map rank (pool s)) + readerRank (reader s)"


text \<open>
  The pointer a worker holds between \<^verbatim>\<open>getRequest\<close> and \<^verbatim>\<open>handleRequest\<close>. In a sound
  session every pointer, in the map or held by a worker, is the address of a request; in
  a \<open>separate\<close> session the map's pointers are addresses of requests and no two handles
  share one.
\<close>

fun holds :: "worker_pc \<Rightarrow> nat option" where
  "holds (W_populate pkt i a) = a"
| "holds (W_handle i a) = Some a"
| "holds pc = None"

definition sound :: "'m session \<Rightarrow> bool" where
  "sound s =
     ((\<forall>handle a. registry s handle = Some a \<longrightarrow> a < length (heap s))
      \<and> (\<forall>pc a. pc \<in> set (pool s) \<and> holds pc = Some a \<longrightarrow> a < length (heap s)))"

definition separate :: "'m session \<Rightarrow> bool" where
  "separate s =
     ((\<forall>handle a. registry s handle = Some a \<longrightarrow> a < length (heap s))
      \<and> (\<forall>h1 h2 a. registry s h1 = Some a \<and> registry s h2 = Some a \<longrightarrow> h1 = h2))"

text \<open>
  A worker that holds a packet and runs alone to the end of its pass: back at the
  channel, returned with an error, or dead; and how \<open>dispatch\<close> names these ends.
\<close>

fun passEnded :: "worker_pc \<Rightarrow> bool" where
  "passEnded W_idle = True"
| "passEnded (W_closeConn err) = True"
| "passEnded W_exited = True"
| "passEnded pc = False"

fun soloPass :: "'m env \<Rightarrow> nat \<Rightarrow> 'm session \<Rightarrow> worker_pc \<Rightarrow> worker_pc \<times> 'm session" where
  "soloPass env 0 s pc = (pc, s)"
| "soloPass env (Suc n) s pc =
     (if passEnded pc then (pc, s)
      else case workerMove env s pc of
             None \<Rightarrow> (pc, s)
           | Some (pc1, s1) \<Rightarrow> soloPass env n s1 pc1)"

fun outcome :: "worker_pc \<Rightarrow> step" where
  "outcome W_idle = Next"
| "outcome (W_closeConn err) = Return err"
| "outcome pc = NilRequest"

subsection \<open>What a packet does to the registry\<close>

text \<open>
  The handle a packet registers, if it registers one (the open-like and the path-bearing
  packets call \<^verbatim>\<open>nextRequest\<close>), and the handle a packet releases (only the close packet
  calls \<^verbatim>\<open>closeRequest\<close>).
\<close>

fun registers :: "'m env \<Rightarrow> packet \<Rightarrow> string option" where
  "registers env (Open i path) = Some (Filepath (newRequest env path))"
| "registers env (Opendir i path) = Some (Filepath (newRequest env path))"
| "registers env (HasPath k i path) = Some (Filepath (newRequest env path))"
| "registers env pkt = None"

fun closes :: "packet \<Rightarrow> string option" where
  "closes (Close i handle) = Some handle"
| "closes pkt = None"

fun reply_handle :: "reply \<Rightarrow> string option" where
  "reply_handle (HandleReply i handle) = Some handle"
| "reply_handle rpkt = None"

text \<open>
  Modelled from the spec: \<^verbatim>\<open>newRequest\<close> is not in request-server.go. A Request holds
  the originating path: \<open>storesPath\<close> says that the request built for a path has that
  path, unchanged, as its \<^verbatim>\<open>Filepath\<close>.
\<close>

definition storesPath :: "'m env \<Rightarrow> string \<Rightarrow> bool" where
  "storesPath env path = (Filepath (newRequest env path) = path)"

text \<open>
  An open or opendir packet (\<open>dir\<close> tells which) with its identifier and path, and the
  handle reply that acknowledges it when the handle is the path.
\<close>

fun openLike :: "bool \<times> nat \<times> string \<Rightarrow> packet" where
  "openLike (dir, i, path) = (if dir then Opendir i path else Open i path)"

fun ack :: "bool \<times> nat \<times> string \<Rightarrow> reply" where
  "ack (dir, i, path) = HandleReply i path"

subsection \<open>A concrete session\<close>

text \<open>
  An environment to run the model on: requests that remember the identifier of the packet
  they serve, a handler that answers with that identifier and the path, a transport whose
  writes succeed, a codec that knows three packet types, two workers, protocol version 3.
\<close>

definition demo_env :: "nat env" where
  "demo_env =
     \<lparr>newRequest = (\<lambda>path. \<lparr>Filepath = path, \<dots> = 0\<rparr>),
      populate = (\<lambda>r pkt. r\<lparr>request.more := (case pkt_id pkt of None \<Rightarrow> 0 | Some i \<Rightarrow> i)\<rparr>),
      handleRequest = (\<lambda>r. (r, Inr (Response (request.more r) (Filepath r)))),
      transmit = (\<lambda>rs rpkt. None),
      makePacket = (\<lambda>(pktType, pktBytes).
         if pktType = 1 then Inr Init
         else if pktType = 4 then Inr (Close (length pktBytes) ''/a'')
         else if pktType = 3 then Inr (Open (length pktBytes) ''/a'')
         else Inl (Failure ''unhandled packet type'')),
      sftpServerWorkerCount = 2,
      sftpProtocolVersion = 3\<rparr>"

definition idle :: "nat server" where
  "idle = \<lparr>openRequests = Map.empty, sent = [], connClosed = False\<rparr>"

definition busy :: "nat server" where
  "busy = \<lparr>openRequests = [''/a'' \<mapsto> \<lparr>Filepath = ''/a'', \<dots> = 0\<rparr>], sent = [],
            connClosed = False\<rparr>"

text \<open>
  A session in which two packets wait in the channel, the first worker is about to send a
  reply, and the next read of the transport reports the end of the stream.
\<close>

definition draining :: "nat session" where
  "draining =
     \<lparr>conn_in = [(0, [], Some EOF), (1, [], None)], pktChan = [Open 7 ''/a'', Init],
      reader = R_recv, pool = [W_send (Version 3), W_idle],
      registry = Map.empty, heap = [], wire = [], connShut = False, crashed = False\<rparr>"

section \<open>Properties\<close>

subsection \<open>The registry under the worker\<close>

lemma openRequests_afterSend:
  "openRequests (snd (afterSend (sendPacket env rs rpkt))) = openRequests rs"
  by (simp add: afterSend_def sendPacket_def split: option.split)

lemma openRequests_serveRequest:
  "openRequests (snd (serveRequest env rs i pkt handle)) =
     (case openRequests rs handle of
        None \<Rightarrow> openRequests rs
      | Some r \<Rightarrow> (openRequests rs)(handle \<mapsto> fst (handleRequest env (populate env r pkt))))"
  by (simp add: serveRequest_def populateOn_def getRequest_def openRequests_afterSend
      split: option.split prod.split)

lemma openRequests_closeRequest:
  "openRequests (closeRequest rs handle) = (openRequests rs)(handle := None)"
  by (auto simp: closeRequest_def)

lemma afterSend_cases:
  "afterSend (sendPacket env rs rpkt) =
     (case transmit env rs rpkt of
        None \<Rightarrow> (Next, rs\<lparr>sent := sent rs @ [rpkt]\<rparr>)
      | Some err \<Rightarrow> (Return err, rs))"
  by (simp add: afterSend_def sendPacket_def split: option.split)

lemma serveRequest_unknown:
  "openRequests rs handle = None \<Longrightarrow> serveRequest env rs i pkt handle = (NilRequest, rs)"
  by (simp add: serveRequest_def populateOn_def getRequest_def)

lemma serveRequest_found:
  "openRequests rs handle = Some r \<Longrightarrow>
   serveRequest env rs i pkt handle =
     afterSend (sendPacket env
       (rs\<lparr>openRequests := (openRequests rs)(handle \<mapsto> fst (handleRequest env (populate env r pkt)))\<rparr>)
       (case snd (handleRequest env (populate env r pkt)) of
          Inl err \<Rightarrow> Status i (Some err)
        | Inr p \<Rightarrow> p))"
  by (simp add: serveRequest_def populateOn_def getRequest_def statusFromError_def split: prod.split sum.split)

lemma dispatch_absent:
  assumes "openRequests rs h = None" and "registers env pkt \<noteq> Some h"
  shows "openRequests (snd (dispatch env rs pkt)) h = None"
  using assms
  by (cases pkt)
     (auto simp: openRequests_afterSend openRequests_serveRequest sendError_def
        openRequests_closeRequest nextRequest_def split: option.split prod.split)

lemma dispatch_present:
  assumes "openRequests rs h \<noteq> None" and "closes pkt \<noteq> Some h"
  shows "openRequests (snd (dispatch env rs pkt)) h \<noteq> None"
  using assms
  by (cases pkt)
     (auto simp: openRequests_afterSend openRequests_serveRequest sendError_def
        openRequests_closeRequest nextRequest_def split: option.split prod.split)

lemma packetWorker_absent:
  assumes "openRequests rs h = None" and "\<forall>pkt\<in>set ps. registers env pkt \<noteq> Some h"
  shows "openRequests (snd (packetWorker env rs ps)) h = None"
  using assms
proof (induction ps arbitrary: rs)
  case Nil
  then show ?case by simp
next
  case (Cons pkt ps)
  obtain st rs1 where d: "dispatch env rs pkt = (st, rs1)"
    by (cases "dispatch env rs pkt")
  have "openRequests rs1 h = None"
    using dispatch_absent [of rs h env pkt] Cons.prems d by simp
  then show ?case
    using Cons.IH [of rs1] Cons.prems(2) d by (cases st) simp_all
qed

lemma packetWorker_present:
  assumes "openRequests rs h \<noteq> None" and "\<forall>pkt\<in>set ps. closes pkt \<noteq> Some h"
  shows "openRequests (snd (packetWorker env rs ps)) h \<noteq> None"
  using assms
proof (induction ps arbitrary: rs)
  case Nil
  then show ?case by simp
next
  case (Cons pkt ps)
  obtain st rs1 where d: "dispatch env rs pkt = (st, rs1)"
    by (cases "dispatch env rs pkt")
  have "openRequests rs1 h \<noteq> None"
    using dispatch_present [of rs h pkt env] Cons.prems d by simp
  then show ?case
    using Cons.IH [of rs1] Cons.prems(2) d by (cases st) simp_all
qed

subsection \<open>Release\<close>

text \<open>
  C6. After \<^verbatim>\<open>closeRequest\<close> of a handle, \<^verbatim>\<open>getRequest\<close> of that handle reports not
  found, and goes on reporting so after a worker has served any packets of which none
  registers the handle. A \<^verbatim>\<open>nextRequest\<close> of a request with that \<^verbatim>\<open>Filepath\<close> makes it
  found again, and registering a handle that was absent and then releasing it gives back
  the server as it was.
\<close>

theorem release_then_absent:
  "getRequest (closeRequest rs h) h = (None, False)
   \<and> ((\<forall>pkt\<in>set ps. registers env pkt \<noteq> Some h) \<longrightarrow>
        getRequest (snd (packetWorker env (closeRequest rs h) ps)) h = (None, False))
   \<and> getRequest (snd (nextRequest (closeRequest rs h) r)) (Filepath r) = (Some r, True)
   \<and> (openRequests rs (Filepath r) = None \<longrightarrow>
        closeRequest (snd (nextRequest rs r)) (Filepath r) = rs)"
proof -
  have absent: "openRequests (closeRequest rs h) h = None"
    by (simp add: openRequests_closeRequest)
  have remains: "openRequests (snd (packetWorker env (closeRequest rs h) ps)) h = None"
    if "\<forall>pkt\<in>set ps. registers env pkt \<noteq> Some h"
    using packetWorker_absent [OF absent that] .
  have undone: "closeRequest (snd (nextRequest rs r)) (Filepath r) = rs"
    if "openRequests rs (Filepath r) = None"
  proof -
    have "(openRequests rs)(Filepath r := None) = openRequests rs"
      using that by (simp add: fun_upd_idem)
    then show ?thesis
      by (simp add: closeRequest_def nextRequest_def)
  qed
  show ?thesis
    using absent remains undone by (simp add: getRequest_def nextRequest_def)
qed

theorem release_then_absent_witness:
  "getRequest (snd (packetWorker demo_env (closeRequest busy ''/a'')
       [Init, Opendir 1 ''/b'', HasHandle 5 2 ''/b'', Close 3 ''/b'', Other 9 4])) ''/a''
     = (None, False)
   \<and> closeRequest (snd (nextRequest idle \<lparr>Filepath = ''/c'', \<dots> = 7\<rparr>)) ''/c'' = idle"
  using release_then_absent [of busy "''/a''"
      "[Init, Opendir 1 ''/b'', HasHandle 5 2 ''/b'', Close 3 ''/b'', Other 9 4]" demo_env]
    release_then_absent [of idle "''/c''" "[]" demo_env "\<lparr>Filepath = ''/c'', \<dots> = 7\<rparr>"]
  by (simp add: demo_env_def idle_def)

subsection \<open>Close packets\<close>

text \<open>
  C7. For a close packet, whatever the registry holds for its handle, the worker calls
  \<^verbatim>\<open>closeRequest\<close> on the handle and hands the transport a status reply for the packet's
  identifier with no error (success). The pass ends in an error only when that write
  fails, never in a call on a nil request. After \<^verbatim>\<open>closeRequest\<close> the handle is absent
  and nothing else has changed; a second \<^verbatim>\<open>closeRequest\<close> changes nothing.
\<close>

theorem close_replies_success:
  "dispatch env rs (Close i h) =
     (case transmit env (closeRequest rs h) (Status i None) of
        None \<Rightarrow> (Next, (closeRequest rs h)\<lparr>sent := sent rs @ [Status i None]\<rparr>)
      | Some err \<Rightarrow> (Return err, closeRequest rs h))
   \<and> openRequests (closeRequest rs h) = (openRequests rs)(h := None)
   \<and> closeRequest (closeRequest rs h) h = closeRequest rs h
   \<and> fst (dispatch env rs (Close i h)) \<noteq> NilRequest"
  by (auto simp: sendError_def sendPacket_def afterSend_def statusFromError_def
      closeRequest_def split: option.split)

subsection \<open>Session init\<close>

text \<open>
  C8. For a session-init packet the worker hands the transport the version reply
  \<^verbatim>\<open>sshFxVersionPacket{sftpProtocolVersion, nil}\<close> and nothing else, and the registry after
  the pass is the registry before it.
\<close>

theorem init_leaves_registry:
  "dispatch env rs Init =
     (case transmit env rs (Version (sftpProtocolVersion env)) of
        None \<Rightarrow> (Next, rs\<lparr>sent := sent rs @ [Version (sftpProtocolVersion env)]\<rparr>)
      | Some err \<Rightarrow> (Return err, rs))
   \<and> openRequests (snd (dispatch env rs Init)) = openRequests rs"
  by (simp add: sendPacket_def afterSend_def split: option.split)

subsection \<open>Handles and paths\<close>

text \<open>
  C9. When \<^verbatim>\<open>newRequest\<close> stores the path it is given, the handle \<^verbatim>\<open>nextRequest\<close> returns
  for an open, an opendir or a path-bearing packet is the packet's path itself: it is the
  key of the new registry entry, the handle of the handle reply sent for an open or an
  opendir, and the handle under which a path-bearing packet is served.
\<close>

theorem handle_is_path:
  assumes "storesPath env path"
  shows "fst (nextRequest rs (newRequest env path)) = path
   \<and> dispatch env rs (Open i path) =
       afterSend (sendPacket env
         (rs\<lparr>openRequests := (openRequests rs)(path \<mapsto> newRequest env path)\<rparr>)
         (HandleReply i path))
   \<and> dispatch env rs (Opendir i path) =
       afterSend (sendPacket env
         (rs\<lparr>openRequests := (openRequests rs)(path \<mapsto> newRequest env path)\<rparr>)
         (HandleReply i path))
   \<and> dispatch env rs (HasPath k i path) =
       serveRequest env
         (rs\<lparr>openRequests := (openRequests rs)(path \<mapsto> newRequest env path)\<rparr>)
         i (HasPath k i path) path"
  using assms by (simp add: storesPath_def nextRequest_def)

theorem handle_is_path_witness:
  "storesPath demo_env ''/dir/../f''
   \<and> dispatch demo_env idle (Open 4 ''/dir/../f'') =
       (Next, idle\<lparr>openRequests := [''/dir/../f'' \<mapsto> \<lparr>Filepath = ''/dir/../f'', \<dots> = 0\<rparr>],
                 sent := [HandleReply 4 ''/dir/../f'']\<rparr>)"
proof -
  have h: "storesPath demo_env ''/dir/../f''"
    by (simp add: storesPath_def demo_env_def)
  show ?thesis
    using h handle_is_path [OF h, of idle 4]
    by (simp add: demo_env_def idle_def sendPacket_def afterSend_def)
qed

subsection \<open>Path-bearing packets\<close>

text \<open>
  C10. A pass for a path-bearing packet finds the request it has just registered, so
  the handler runs, and after the pass the registry holds an entry for the synthesized
  handle. The entry is still there after the worker has served any further packets of
  which none is a close packet for that handle, and a close packet for it removes it.
\<close>

theorem path_request_stays:
  "fst (dispatch env rs (HasPath k i path)) \<noteq> NilRequest
   \<and> openRequests (snd (dispatch env rs (HasPath k i path))) (Filepath (newRequest env path)) \<noteq> None
   \<and> ((\<forall>pkt\<in>set ps. closes pkt \<noteq> Some (Filepath (newRequest env path))) \<longrightarrow>
        openRequests (snd (packetWorker env (snd (dispatch env rs (HasPath k i path))) ps))
          (Filepath (newRequest env path)) \<noteq> None)
   \<and> openRequests (snd (dispatch env (snd (dispatch env rs (HasPath k i path)))
          (Close j (Filepath (newRequest env path))))) (Filepath (newRequest env path)) = None"
proof -
  let ?h = "Filepath (newRequest env path)"
  let ?rs1 = "snd (dispatch env rs (HasPath k i path))"
  have run: "fst (dispatch env rs (HasPath k i path)) \<noteq> NilRequest"
    by (simp add: nextRequest_def serveRequest_def populateOn_def getRequest_def afterSend_def
        split: prod.split option.split)
  have here: "openRequests ?rs1 ?h \<noteq> None"
    by (simp add: nextRequest_def openRequests_serveRequest)
  have stays: "openRequests (snd (packetWorker env ?rs1 ps)) ?h \<noteq> None"
    if "\<forall>pkt\<in>set ps. closes pkt \<noteq> Some ?h"
    using packetWorker_present [OF here that] .
  have gone: "openRequests (snd (dispatch env ?rs1 (Close j ?h))) ?h = None"
    by (simp add: sendError_def openRequests_afterSend openRequests_closeRequest)
  show ?thesis
    using run here stays gone by blast
qed

theorem path_request_stays_witness:
  "openRequests (snd (packetWorker demo_env (snd (dispatch demo_env idle (HasPath 7 1 ''/s'')))
       [HasHandle 5 2 ''/s'', Close 3 ''/t'', Open 4 ''/s'', Init])) ''/s'' \<noteq> None
   \<and> fst (dispatch demo_env idle (HasPath 7 1 ''/s'')) = Next"
  using path_request_stays [of demo_env idle 7 1 "''/s''"
      "[HasHandle 5 2 ''/s'', Close 3 ''/t'', Open 4 ''/s'', Init]"]
  by (simp add: demo_env_def idle_def nextRequest_def serveRequest_def populateOn_def getRequest_def
      sendPacket_def afterSend_def)

subsection \<open>Registration\<close>

lemma closes_openLike: "closes (openLike x) = None"
  by (cases x) simp

lemma dispatch_openLike:
  "dispatch env rs (openLike (dir, i, path)) =
     afterSend (sendPacket env
       (rs\<lparr>openRequests := (openRequests rs)(Filepath (newRequest env path) \<mapsto> newRequest env path)\<rparr>)
       (HandleReply i (Filepath (newRequest env path))))"
  by (simp add: nextRequest_def)

lemma opens_sent:
  assumes "\<forall>x\<in>set xs. storesPath env (snd (snd x))"
    and "fst (packetWorker env rs (map openLike xs)) = Returned None []"
  shows "sent (snd (packetWorker env rs (map openLike xs))) = sent rs @ map ack xs"
  using assms
proof (induction xs arbitrary: rs)
  case Nil
  then show ?case by simp
next
  case (Cons x xs)
  obtain dir i path where x: "x = (dir, i, path)"
    by (cases x)
  let ?rs0 = "rs\<lparr>openRequests := (openRequests rs)(path \<mapsto> newRequest env path)\<rparr>"
  have sp: "Filepath (newRequest env path) = path"
    using Cons.prems(1) x by (simp add: storesPath_def)
  have d: "dispatch env rs (openLike x) = afterSend (sendPacket env ?rs0 (HandleReply i path))"
    unfolding x using dispatch_openLike [of env rs dir i path] sp by simp
  show ?case
  proof (cases "transmit env ?rs0 (HandleReply i path)")
    case None
    let ?rs1 = "?rs0\<lparr>sent := sent rs @ [HandleReply i path]\<rparr>"
    have step: "dispatch env rs (openLike x) = (Next, ?rs1)"
      using d None by (simp add: afterSend_cases)
    have run: "packetWorker env rs (map openLike (x # xs)) = packetWorker env ?rs1 (map openLike xs)"
      using step by simp
    have "sent (snd (packetWorker env ?rs1 (map openLike xs))) = sent ?rs1 @ map ack xs"
      using Cons.IH [of ?rs1] Cons.prems run by simp
    then show ?thesis
      using run x by simp
  next
    case (Some err)
    have "dispatch env rs (openLike x) = (Return err, ?rs0)"
      using d Some by (simp add: afterSend_cases)
    then have "fst (packetWorker env rs (map openLike (x # xs))) = Returned (Some err) (map openLike xs)"
      by simp
    then show ?thesis
      using Cons.prems(2) by simp
  qed
qed

lemma opens_found:
  assumes "fst (packetWorker env rs (map openLike xs)) = Returned None []"
    and "x \<in> set xs"
  shows "openRequests (snd (packetWorker env rs (map openLike xs)))
           (Filepath (newRequest env (snd (snd x)))) \<noteq> None"
  using assms
proof (induction xs arbitrary: rs)
  case Nil
  then show ?case by simp
next
  case (Cons y xs)
  obtain dir i path where y: "y = (dir, i, path)"
    by (cases y)
  let ?h = "Filepath (newRequest env path)"
  let ?rs0 = "rs\<lparr>openRequests := (openRequests rs)(?h \<mapsto> newRequest env path)\<rparr>"
  have d: "dispatch env rs (openLike y) = afterSend (sendPacket env ?rs0 (HandleReply i ?h))"
    unfolding y by (rule dispatch_openLike)
  show ?case
  proof (cases "transmit env ?rs0 (HandleReply i ?h)")
    case None
    let ?rs1 = "?rs0\<lparr>sent := sent rs @ [HandleReply i ?h]\<rparr>"
    have step: "dispatch env rs (openLike y) = (Next, ?rs1)"
      using d None by (simp add: afterSend_cases)
    have run: "packetWorker env rs (map openLike (y # xs)) = packetWorker env ?rs1 (map openLike xs)"
      using step by simp
    show ?thesis
    proof (cases "x = y")
      case True
      have "openRequests ?rs1 ?h \<noteq> None" by simp
      moreover have "\<forall>pkt\<in>set (map openLike xs). closes pkt \<noteq> Some ?h"
        by (simp add: closes_openLike)
      ultimately have "openRequests (snd (packetWorker env ?rs1 (map openLike xs))) ?h \<noteq> None"
        by (rule packetWorker_present)
      then show ?thesis
        using run True y by simp
    next
      case False
      then have "x \<in> set xs"
        using Cons.prems(2) by simp
      then show ?thesis
        using Cons.IH [of ?rs1] Cons.prems(1) run by simp
    qed
  next
    case (Some err)
    have "dispatch env rs (openLike y) = (Return err, ?rs0)"
      using d Some by (simp add: afterSend_cases)
    then have "fst (packetWorker env rs (map openLike (y # xs))) = Returned (Some err) (map openLike xs)"
      by simp
    then show ?thesis
      using Cons.prems(1) by simp
  qed
qed

lemma reply_handle_ack:
  "map reply_handle (map ack xs) = map Some (map (\<lambda>x. snd (snd x)) xs)"
  by (induction xs) auto

text \<open>
  C4. The handle \<^verbatim>\<open>nextRequest\<close> returns for the request of a path depends on the path
  alone, not on the server, and \<^verbatim>\<open>getRequest\<close> finds the request under that handle
  right after the registration. When \<^verbatim>\<open>newRequest\<close> stores the paths it is given, a
  worker that serves open and opendir packets with pairwise distinct paths, every write
  succeeding, sends one handle reply for each, in order, with pairwise distinct handles,
  and \<^verbatim>\<open>getRequest\<close> finds every one of them afterwards.
\<close>

theorem register_distinct_handles:
  "fst (nextRequest rs (newRequest env path)) = fst (nextRequest rs' (newRequest env path))
   \<and> getRequest (snd (nextRequest rs r)) (fst (nextRequest rs r)) = (Some r, True)
   \<and> (distinct (map (\<lambda>x. snd (snd x)) xs) \<and> (\<forall>x\<in>set xs. storesPath env (snd (snd x)))
        \<and> fst (packetWorker env rs (map openLike xs)) = Returned None [] \<longrightarrow>
      sent (snd (packetWorker env rs (map openLike xs))) = sent rs @ map ack xs
      \<and> distinct (map reply_handle (map ack xs))
      \<and> (\<forall>x\<in>set xs. snd (getRequest (snd (packetWorker env rs (map openLike xs))) (snd (snd x)))))"
proof -
  have det: "fst (nextRequest rs (newRequest env path)) = fst (nextRequest rs' (newRequest env path))"
    by (simp add: nextRequest_def)
  have now: "getRequest (snd (nextRequest rs r)) (fst (nextRequest rs r)) = (Some r, True)"
    by (simp add: nextRequest_def getRequest_def)
  have seq: "sent (snd (packetWorker env rs (map openLike xs))) = sent rs @ map ack xs
      \<and> distinct (map reply_handle (map ack xs))
      \<and> (\<forall>x\<in>set xs. snd (getRequest (snd (packetWorker env rs (map openLike xs))) (snd (snd x))))"
    if dist: "distinct (map (\<lambda>x. snd (snd x)) xs)"
      and sp: "\<forall>x\<in>set xs. storesPath env (snd (snd x))"
      and ok: "fst (packetWorker env rs (map openLike xs)) = Returned None []"
  proof -
    have a: "sent (snd (packetWorker env rs (map openLike xs))) = sent rs @ map ack xs"
      using opens_sent [OF sp ok] .
    have b: "distinct (map reply_handle (map ack xs))"
    proof -
      have "distinct (map Some (map (\<lambda>x. snd (snd x)) xs))"
        using dist by (subst distinct_map) simp
      then show ?thesis
        by (simp only: reply_handle_ack)
    qed
    have c: "snd (getRequest (snd (packetWorker env rs (map openLike xs))) (snd (snd x)))"
      if "x \<in> set xs" for x
      using opens_found [OF ok that] sp that by (simp add: getRequest_def storesPath_def)
    show ?thesis
      using a b c by blast
  qed
  show ?thesis
    using det now seq by blast
qed

theorem register_distinct_handles_witness:
  "distinct (map (\<lambda>x. snd (snd x)) [(False, 1::nat, ''/a''), (True, 2, ''/b'')])
   \<and> sent (snd (packetWorker demo_env idle (map openLike [(False, 1, ''/a''), (True, 2, ''/b'')])))
       = [HandleReply 1 ''/a'', HandleReply 2 ''/b'']
   \<and> snd (getRequest (snd (packetWorker demo_env idle
        (map openLike [(False, 1, ''/a''), (True, 2, ''/b'')]))) ''/a'')"
  using register_distinct_handles [of idle demo_env "''/a''" idle "\<lparr>Filepath = ''/a'', \<dots> = 0\<rparr>"
      "[(False, 1, ''/a''), (True, 2, ''/b'')]"]
  by (simp add: demo_env_def idle_def storesPath_def nextRequest_def sendPacket_def
      afterSend_def getRequest_def)

subsection \<open>Replies\<close>

text \<open>
  A pass that goes on to the next packet has written exactly one reply, and the reply has
  the request identifier of the packet whenever the packet that \<^verbatim>\<open>handleRequest\<close> returns
  has it (the version reply, like the session-init packet, has none).
\<close>

lemma dispatch_Next_one_reply:
  assumes "dispatch env rs pkt = (Next, rs1)"
    and "\<And>r r1 p. handleRequest env (populate env r pkt) = (r1, Inr p) \<Longrightarrow> reply_id p = pkt_id pkt"
  shows "\<exists>rpkt. sent rs1 = sent rs @ [rpkt] \<and> reply_id rpkt = pkt_id pkt"
proof -
  have send: "sent b = sent a @ [p]"
    if "afterSend (sendPacket env a p) = (Next, b)" for a b p
    using that by (auto simp: afterSend_cases split: option.splits)
  have serve: "\<exists>rpkt. sent b = sent a @ [rpkt] \<and> reply_id rpkt = Some i"
    if "serveRequest env a i pkt h = (Next, b)" and "pkt_id pkt = Some i" for a b i h
  proof (cases "openRequests a h")
    case None
    then show ?thesis
      using that by (simp add: serveRequest_unknown)
  next
    case (Some r)
    obtain r1 res where hr: "handleRequest env (populate env r pkt) = (r1, res)"
      by (cases "handleRequest env (populate env r pkt)")
    let ?rpkt = "case res of Inl err \<Rightarrow> Status i (Some err) | Inr p \<Rightarrow> p"
    have "sent b = sent a @ [?rpkt]"
      using that(1) Some hr
        send [of "a\<lparr>openRequests := (openRequests a)(h \<mapsto> r1)\<rparr>" ?rpkt b]
      by (simp add: serveRequest_found)
    moreover have "reply_id ?rpkt = Some i"
      using assms(2) [of r r1] hr that(2) by (cases res) simp_all
    ultimately show ?thesis by blast
  qed
  show ?thesis
  proof (cases pkt)
    case Init
    then show ?thesis using assms(1) send [of rs _ rs1] by simp
  next
    case (Open i p)
    then show ?thesis
      using assms(1) send [of "snd (nextRequest rs (newRequest env p))" _ rs1]
      by (simp add: nextRequest_def)
  next
    case (Opendir i p)
    then show ?thesis
      using assms(1) send [of "snd (nextRequest rs (newRequest env p))" _ rs1]
      by (simp add: nextRequest_def)
  next
    case (Close i h)
    have "sent (closeRequest rs h) = sent rs"
      by (simp add: closeRequest_def)
    then show ?thesis
      using Close assms(1) send [of "closeRequest rs h" _ rs1]
      by (simp add: sendError_def statusFromError_def)
  next
    case (HasHandle k i h)
    then show ?thesis using assms(1) serve [of rs i h rs1] by simp
  next
    case (HasPath k i p)
    then show ?thesis
      using assms(1) serve [of "snd (nextRequest rs (newRequest env p))" i _ rs1]
      by (simp add: nextRequest_def)
  next
    case (Other k i)
    then show ?thesis using assms(1) serve [of rs i "[]" rs1] by simp
  qed
qed

subsection \<open>Unknown handles\<close>

text \<open>
  C1. A handle-bearing packet whose handle is not in the registry: the lookup fails, the
  bad-descriptor status is built and dropped, \<^verbatim>\<open>populate\<close> is called on the nil request
  (see \<open>serveRequest_unknown\<close> for every server and handle), and no status reply is sent.
\<close>

theorem unknown_handle_unanswered:
  "getRequest idle ''/gone'' = (None, False)
   \<and> dispatch demo_env idle (HasHandle 5 1 ''/gone'') = (NilRequest, idle)
   \<and> sent (snd (dispatch demo_env idle (HasHandle 5 1 ''/gone''))) = []"
  by (simp add: demo_env_def idle_def serveRequest_def populateOn_def getRequest_def)

text \<open>
  C5. Open, close, then a read on the closed handle, then a session-init: the worker
  writes the handle reply and the success status, and ends at the third packet with no
  reply to it; the fourth is never served.
\<close>

theorem read_after_close_no_reply:
  "packetWorker demo_env idle [Open 1 ''/a'', Close 2 ''/a'', HasHandle 5 3 ''/a'', Init] =
     (Panicked, idle\<lparr>sent := [HandleReply 1 ''/a'', Status 2 None]\<rparr>)"
  by (simp add: demo_env_def idle_def serveRequest_def populateOn_def getRequest_def nextRequest_def
      closeRequest_def sendError_def statusFromError_def sendPacket_def afterSend_def)

subsection \<open>The session: after reading has stopped\<close>

text \<open>
  Once the reader has left its loop every step lowers the weight of the session, the
  error it recorded stays, and \<^verbatim>\<open>Serve\<close> returns only when every worker is gone. A
  worker that is not gone can always move once the channel is closed, so a session at
  rest has either lost the process to a panic or seen \<^verbatim>\<open>Serve\<close> return.
\<close>

lemma workerMove_rank:
  assumes "workerMove env s pc = Some (pc1, s1)"
  shows "rank pc1 + 6 * length (pktChan s1) < rank pc + 6 * length (pktChan s)
         \<and> pool s1 = pool s \<and> reader s1 = reader s"
  using assms
  by (induction env s pc rule: workerMove.induct)
     (auto simp: storeRequest_def split: list.splits if_splits prod.splits option.splits)


lemma sum_list_map_update:
  "w < length xs \<Longrightarrow>
   sum_list (map f (xs[w := y])) + f (xs ! w) = sum_list (map f xs) + (f y :: nat)"
proof (induction xs arbitrary: w)
  case Nil
  then show ?case by simp
next
  case (Cons x xs)
  show ?case
  proof (cases w)
    case 0
    then show ?thesis by simp
  next
    case (Suc v)
    then show ?thesis
      using Cons.IH [of v] Cons.prems by simp
  qed
qed

lemma stepOf_weight:
  assumes "recorded (reader s) = Some err" and "stepOf env th s = Some s1"
  shows "weight s1 < weight s \<and> recorded (reader s1) = Some err"
proof (cases th)
  case Reader
  then have "readerStep env s (reader s) = Some s1"
    using assms(2) by (simp add: stepOf_def split: if_splits)
  then show ?thesis
    using assms(1)
    by (cases "reader s") (auto simp: weight_def split: if_splits)
next
  case (Worker w)
  then have w: "w < length (pool s)"
    using assms(2) by (simp add: stepOf_def split: if_splits)
  obtain pc1 s2 where m: "workerMove env s (pool s ! w) = Some (pc1, s2)"
    and s1: "s1 = s2\<lparr>pool := (pool s2)[w := pc1]\<rparr>"
    using assms(2) Worker w
    by (auto simp: stepOf_def split: if_splits option.splits)
  have r: "rank pc1 + 6 * length (pktChan s2) < rank (pool s ! w) + 6 * length (pktChan s)"
    and p: "pool s2 = pool s" and rd: "reader s2 = reader s"
    using workerMove_rank [OF m] by simp_all
  have "sum_list (map rank ((pool s)[w := pc1])) + rank (pool s ! w)
          = sum_list (map rank (pool s)) + rank pc1"
    using w by (rule sum_list_map_update)
  then have "weight s1 < weight s"
    using r p rd s1 by (simp add: weight_def)
  then show ?thesis
    using assms(1) rd s1 by simp
qed

lemma stepOf_exited:
  assumes "stepOf env th s = Some s1"
    and "\<And>err. reader s = R_done err \<Longrightarrow> list_all (\<lambda>pc. pc = W_exited) (pool s)"
  shows "reader s1 = R_done err \<Longrightarrow> list_all (\<lambda>pc. pc = W_exited) (pool s1)"
proof (cases th)
  case Reader
  then have "readerStep env s (reader s) = Some s1"
    using assms(1) by (simp add: stepOf_def split: if_splits)
  then show "reader s1 = R_done err \<Longrightarrow> list_all (\<lambda>pc. pc = W_exited) (pool s1)"
    by (cases "reader s") (auto split: if_splits list.splits sum.splits)
next
  case (Worker w)
  then have w: "w < length (pool s)"
    using assms(1) by (simp add: stepOf_def split: if_splits)
  obtain pc1 s2 where m: "workerMove env s (pool s ! w) = Some (pc1, s2)"
    and s1: "s1 = s2\<lparr>pool := (pool s2)[w := pc1]\<rparr>"
    using assms(1) Worker w
    by (auto simp: stepOf_def split: if_splits option.splits)
  have rd: "reader s2 = reader s"
    using workerMove_rank [OF m] by simp
  assume "reader s1 = R_done err"
  then have "reader s = R_done err"
    using rd s1 by simp
  then have "list_all (\<lambda>pc. pc = W_exited) (pool s)"
    by (rule assms(2))
  then have "pool s ! w = W_exited"
    using w by (simp add: list_all_length)
  then show "list_all (\<lambda>pc. pc = W_exited) (pool s1)"
    using m by simp
qed


lemma after_stop:
  assumes "run env sched s = Some s1"
    and "recorded (reader s) = Some err"
    and "\<And>e. reader s = R_done e \<Longrightarrow> list_all (\<lambda>pc. pc = W_exited) (pool s)"
  shows "length sched + weight s1 \<le> weight s \<and> recorded (reader s1) = Some err
         \<and> (\<forall>e. reader s1 = R_done e \<longrightarrow> list_all (\<lambda>pc. pc = W_exited) (pool s1))"
  using assms
proof (induction sched arbitrary: s)
  case Nil
  then show ?case by simp
next
  case (Cons th sched)
  obtain s2 where st: "stepOf env th s = Some s2" and rest: "run env sched s2 = Some s1"
    using Cons.prems(1) by (auto split: option.splits)
  have w: "weight s2 < weight s" and r: "recorded (reader s2) = Some err"
    using stepOf_weight [OF Cons.prems(2) st] by simp_all
  have x: "list_all (\<lambda>pc. pc = W_exited) (pool s2)" if "reader s2 = R_done e" for e
    using stepOf_exited [OF st Cons.prems(3) that] .
  have "length sched + weight s1 \<le> weight s2 \<and> recorded (reader s1) = Some err
         \<and> (\<forall>e. reader s1 = R_done e \<longrightarrow> list_all (\<lambda>pc. pc = W_exited) (pool s1))"
    using Cons.IH [OF rest r] x by blast
  then show ?case
    using w by simp
qed


lemma not_final_moves:
  "\<not> final env s \<Longrightarrow> \<exists>th s1. stepOf env th s = Some s1"
  by (auto simp: final_def list_ex_iff list_all_iff)

text \<open>
  While the reader is still in its loop a session can come to rest with \<^verbatim>\<open>Serve\<close>
  blocked: at the send, when the channel is full and every worker has returned.
\<close>

lemma send_blocked_for_ever:
  assumes "reader s = R_send pkt" and "sftpServerWorkerCount env \<le> length (pktChan s)"
    and "list_all (\<lambda>pc. pc = W_exited) (pool s)"
  shows "final env s"
proof -
  have "stepOf env Reader s = None"
    using assms(1,2) by (simp add: stepOf_def)
  moreover have "stepOf env (Worker w) s = None" for w
    using assms(3) by (simp add: stepOf_def list_all_length)
  ultimately show ?thesis
    by (simp add: final_def list_all_iff)
qed

lemma decode_error_never_returned:
  assumes "reader s = R_recv" and "\<not> crashed s" and "\<not> connShut s"
    and "conn_in s = (pktType, pktBytes, None) # rest"
    and "makePacket env (pktType, pktBytes) = Inl err"
    and "run env (Reader # sched) s = Some s1"
  shows "recorded (reader s1) = Some None"
proof -
  have st: "stepOf env Reader s = Some (s\<lparr>conn_in := rest, reader := R_close None\<rparr>)"
    using assms(1-5) by (simp add: stepOf_def)
  then have "run env sched (s\<lparr>conn_in := rest, reader := R_close None\<rparr>) = Some s1"
    using assms(6) by simp
  then show ?thesis
    using after_stop [of env sched "s\<lparr>conn_in := rest, reader := R_close None\<rparr>" s1 None]
    by simp
qed

subsection \<open>The session: pointers\<close>

text \<open>
  Every step keeps a session sound, so a worker never reads the heap outside it; and
  every step keeps the handles of the map on separate requests.
\<close>

lemma sound_newSession: "sound (newSession env recvs)"
  by (simp add: sound_def newSession_def)

lemma workerMove_sound:
  assumes "workerMove env s pc = Some (pc1, s1)"
    and "\<forall>handle a. registry s handle = Some a \<longrightarrow> a < length (heap s)"
    and "\<forall>a. holds pc = Some a \<longrightarrow> a < length (heap s)"
  shows "(\<forall>handle a. registry s1 handle = Some a \<longrightarrow> a < length (heap s1))
         \<and> (\<forall>a. holds pc1 = Some a \<longrightarrow> a < length (heap s1))
         \<and> length (heap s) \<le> length (heap s1)"
  using assms
  by (induction env s pc rule: workerMove.induct)
     (auto simp: storeRequest_def less_Suc_eq
        split: list.splits if_splits prod.splits option.splits)

lemma stepOf_sound:
  assumes "sound s" and "stepOf env th s = Some s1"
  shows "sound s1"
proof (cases th)
  case Reader
  then have "readerStep env s (reader s) = Some s1"
    using assms(2) by (simp add: stepOf_def split: if_splits)
  then show ?thesis
    using assms(1)
    by (cases "reader s") (auto simp: sound_def split: if_splits list.splits sum.splits)
next
  case (Worker w)
  then have w: "w < length (pool s)"
    using assms(2) by (simp add: stepOf_def split: if_splits)
  obtain pc1 s2 where m: "workerMove env s (pool s ! w) = Some (pc1, s2)"
    and s1: "s1 = s2\<lparr>pool := (pool s2)[w := pc1]\<rparr>"
    using assms(2) Worker w
    by (auto simp: stepOf_def split: if_splits option.splits)
  have p: "pool s2 = pool s"
    using workerMove_rank [OF m] by simp
  have reg: "\<forall>handle a. registry s handle = Some a \<longrightarrow> a < length (heap s)"
    using assms(1) by (simp add: sound_def)
  have "pool s ! w \<in> set (pool s)"
    using w by simp
  then have mine: "\<forall>a. holds (pool s ! w) = Some a \<longrightarrow> a < length (heap s)"
    using assms(1) unfolding sound_def by blast
  have after: "(\<forall>handle a. registry s2 handle = Some a \<longrightarrow> a < length (heap s2))"
    "\<forall>a. holds pc1 = Some a \<longrightarrow> a < length (heap s2)"
    "length (heap s) \<le> length (heap s2)"
    using workerMove_sound [OF m reg mine] by simp_all
  have others: "a < length (heap s2)" if "pc \<in> set (pool s)" and "holds pc = Some a" for pc a
  proof -
    have "a < length (heap s)"
      using assms(1) that by (auto simp: sound_def)
    then show ?thesis
      using after(3) by simp
  qed
  have "a < length (heap s2)" if "pc \<in> set ((pool s)[w := pc1])" and "holds pc = Some a" for pc a
  proof -
    have "pc = pc1 \<or> pc \<in> set (pool s)"
      using that(1) set_update_subset_insert [of "pool s" w pc1] by auto
    then show ?thesis
      using after(2) others that(2) by blast
  qed
  then show ?thesis
    using after(1) s1 p by (auto simp: sound_def)
qed

lemma run_sound:
  assumes "sound s" and "run env sched s = Some s1"
  shows "sound s1"
  using assms
proof (induction sched arbitrary: s)
  case Nil
  then show ?case by simp
next
  case (Cons th sched)
  obtain s2 where st: "stepOf env th s = Some s2" and rest: "run env sched s2 = Some s1"
    using Cons.prems(2) by (auto split: option.splits)
  show ?case
    using Cons.IH [OF stepOf_sound [OF Cons.prems(1) st] rest] .
qed

subsection \<open>The session: one worker alone\<close>

text \<open>
  The steps of a worker are those of \<open>dispatch\<close>: a worker that holds a packet and runs
  with no other goroutine in between ends its pass as \<open>dispatch\<close> does, and leaves the
  server that \<open>dispatch\<close> leaves.
\<close>

lemma view_storeRequest:
  assumes "separate s"
  shows "storeRequest s r = (h, s1) \<Longrightarrow>
         nextRequest (view s) r = (h, view s1) \<and> separate s1 \<and> registry s1 h = Some (length (heap s))
         \<and> heap s1 = heap s @ [r]"
proof -
  assume st: "storeRequest s r = (h, s1)"
  have h: "h = Filepath r"
    and s1: "s1 = s\<lparr>heap := heap s @ [r], registry := (registry s)(Filepath r \<mapsto> length (heap s))\<rparr>"
    using st by (auto simp: storeRequest_def)
  have valid: "a < length (heap s)" if "registry s k = Some a" for k a
    using assms that unfolding separate_def by blast
  have "map_option (\<lambda>a. (heap s @ [r]) ! a) (((registry s)(Filepath r \<mapsto> length (heap s))) k)
          = ((\<lambda>k. map_option (\<lambda>a. heap s ! a) (registry s k))(Filepath r \<mapsto> r)) k" for k
    using valid [of k] by (cases "registry s k") (auto simp: nth_append)
  then have v: "view s1 = (view s)\<lparr>openRequests := (openRequests (view s))(Filepath r \<mapsto> r)\<rparr>"
    unfolding s1 view_def by (simp add: fun_eq_iff)
  have sep: "separate s1"
    using assms unfolding s1 separate_def
    by (auto simp: less_Suc_eq split: if_splits)
  show ?thesis
    using h v sep s1 by (simp add: nextRequest_def)
qed

lemma view_closeRequest:
  "view (s\<lparr>registry := (registry s)(h := None)\<rparr>) = closeRequest (view s) h"
proof -
  have "(\<lambda>k. map_option (\<lambda>a. heap s ! a) (((registry s)(h := None)) k))
          = (\<lambda>k. map_option (\<lambda>a. heap s ! a) (registry s k))(h := None)"
    by (simp add: fun_eq_iff)
  moreover have "(\<lambda>k. map_option (\<lambda>a. heap s ! a) (registry s k))(h := None)
          = (\<lambda>k. map_option (\<lambda>a. heap s ! a) (registry s k))" if "registry s h = None"
    using that by (simp add: fun_eq_iff)
  ultimately show ?thesis
    by (auto simp: view_def closeRequest_def)
qed

lemma separate_closeRequest:
  "separate s \<Longrightarrow> separate (s\<lparr>registry := (registry s)(h := None)\<rparr>)"
  unfolding separate_def by (auto split: if_splits)

lemma view_update:
  assumes "separate s" and "registry s h = Some a"
  shows "view (s\<lparr>heap := (heap s)[a := r]\<rparr>)
           = (view s)\<lparr>openRequests := (openRequests (view s))(h \<mapsto> r)\<rparr>"
    and "separate (s\<lparr>heap := (heap s)[a := r]\<rparr>)"
proof -
  have valid: "b < length (heap s)" if "registry s k = Some b" for k b
    using assms(1) that unfolding separate_def by blast
  have one: "k = h" if "registry s k = Some a" for k
    using assms that unfolding separate_def by blast
  have "map_option (\<lambda>b. (heap s)[a := r] ! b) (registry s k)
          = ((\<lambda>k. map_option (\<lambda>b. heap s ! b) (registry s k))(h \<mapsto> r)) k" for k
  proof (cases "registry s k")
    case None
    then show ?thesis using assms(2) by auto
  next
    case (Some b)
    then show ?thesis
      using valid [of k b] one [of k] assms(2) by (cases "b = a") auto
  qed
  then show "view (s\<lparr>heap := (heap s)[a := r]\<rparr>)
           = (view s)\<lparr>openRequests := (openRequests (view s))(h \<mapsto> r)\<rparr>"
    by (simp add: view_def fun_eq_iff)
  show "separate (s\<lparr>heap := (heap s)[a := r]\<rparr>)"
    using assms(1) unfolding separate_def by simp
qed

lemma solo_send:
  "soloPass env (Suc (Suc n)) s (W_send rpkt) =
     (case transmit env (view s) rpkt of
        None \<Rightarrow> (W_idle, s\<lparr>wire := wire s @ [rpkt]\<rparr>)
      | Some err \<Rightarrow> (W_closeConn err, s))"
  by (simp split: option.split)

lemma view_wire: "view (s\<lparr>wire := wire s @ [rpkt]\<rparr>) = (view s)\<lparr>sent := sent (view s) @ [rpkt]\<rparr>"
  by (simp add: view_def)

lemma after_send:
  assumes "soloPass env (Suc (Suc n)) s (W_send rpkt) = (pc1, s1)" and "separate s"
  shows "afterSend (sendPacket env (view s) rpkt) = (outcome pc1, view s1) \<and> separate s1"
  using assms
  by (auto simp: solo_send afterSend_def sendPacket_def view_wire separate_def
      split: option.splits)

lemma solo_step:
  "\<not> passEnded pc \<Longrightarrow> workerMove env s pc = Some (pc1, s1) \<Longrightarrow>
   soloPass env (Suc n) s pc = soloPass env n s1 pc1"
  by simp

lemma separate_crashed: "separate (s\<lparr>crashed := True\<rparr>) = separate s"
  by (simp add: separate_def)

lemma view_crashed: "view (s\<lparr>crashed := True\<rparr>) = view s"
  by (simp add: view_def)

lemma solo_serve:
  assumes "separate s"
    and "soloPass env (Suc (Suc (Suc (Suc (Suc n))))) s (W_lookup pkt i h) = (pc1, s1)"
  shows "serveRequest env (view s) i pkt h = (outcome pc1, view s1) \<and> separate s1"
proof -
  have look: "soloPass env (Suc (Suc (Suc (Suc n)))) s (W_populate pkt i (registry s h)) = (pc1, s1)"
    using assms(2) by (subst (asm) solo_step [of _ env s "W_populate pkt i (registry s h)" s]) simp_all
  show ?thesis
  proof (cases "registry s h")
    case None
    have "soloPass env (Suc (Suc (Suc n))) (s\<lparr>crashed := True\<rparr>) W_exited = (pc1, s1)"
      using look unfolding None
      by (subst (asm) solo_step [of _ env s W_exited "s\<lparr>crashed := True\<rparr>"]) simp_all
    then have "pc1 = W_exited" "s1 = s\<lparr>crashed := True\<rparr>"
      by simp_all
    then show ?thesis
      using None assms(1)
      by (simp add: serveRequest_def getRequest_def populateOn_def separate_crashed view_crashed)
         (simp add: view_def)
  next
    case (Some a)
    let ?r1 = "populate env (heap s ! a) pkt"
    let ?sa = "s\<lparr>heap := (heap s)[a := ?r1]\<rparr>"
    obtain r2 res where hr: "handleRequest env ?r1 = (r2, res)"
      by (cases "handleRequest env ?r1")
    let ?rpkt = "case res of Inl err \<Rightarrow> statusFromError i (Some err) | Inr p \<Rightarrow> p"
    let ?sb = "?sa\<lparr>heap := (heap ?sa)[a := r2]\<rparr>"
    have a: "a < length (heap s)"
      using assms(1) Some unfolding separate_def by blast
    have va: "view ?sa = (view s)\<lparr>openRequests := (openRequests (view s))(h \<mapsto> ?r1)\<rparr>"
      by (rule view_update(1) [OF assms(1) Some])
    have sa: "separate ?sa"
      by (rule view_update(2) [OF assms(1) Some])
    have ra: "registry ?sa h = Some a"
      using Some by simp
    have vb: "view ?sb = (view ?sa)\<lparr>openRequests := (openRequests (view ?sa))(h \<mapsto> r2)\<rparr>"
      by (rule view_update(1) [OF sa ra])
    have sb: "separate ?sb"
      by (rule view_update(2) [OF sa ra])
    have vb': "view ?sb = (view s)\<lparr>openRequests := (openRequests (view s))(h \<mapsto> r2)\<rparr>"
      unfolding vb va by simp
    have pop: "soloPass env (Suc (Suc (Suc n))) ?sa (W_handle i a) = (pc1, s1)"
      using look unfolding Some
      by (subst (asm) solo_step [of _ env s "W_handle i a" ?sa]) simp_all
    have hm: "workerMove env ?sa (W_handle i a) = Some (W_send ?rpkt, ?sb)"
      using hr a by simp
    have "soloPass env (Suc (Suc n)) ?sb (W_send ?rpkt) = (pc1, s1)"
      using pop by (subst (asm) solo_step [OF _ hm]) simp_all
    then have "afterSend (sendPacket env (view ?sb) ?rpkt) = (outcome pc1, view s1) \<and> separate s1"
      using sb by (rule after_send)
    moreover have "serveRequest env (view s) i pkt h = afterSend (sendPacket env (view ?sb) ?rpkt)"
    proof -
      have "openRequests (view s) h = Some (heap s ! a)"
        using Some by (simp add: view_def)
      then show ?thesis
        using hr vb' by (simp add: serveRequest_def getRequest_def populateOn_def)
    qed
    ultimately show ?thesis by simp
  qed
qed

lemma solo_dispatch_Suc:
  assumes "separate s"
    and "soloPass env (Suc (Suc (Suc (Suc (Suc (Suc n)))))) s (W_got pkt) = (pc1, s1)"
  shows "dispatch env (view s) pkt = (outcome pc1, view s1) \<and> separate s1"
proof (cases pkt)
  case Init
  have "soloPass env (Suc (Suc (Suc (Suc (Suc n))))) s (W_send (Version (sftpProtocolVersion env)))
          = (pc1, s1)"
    using assms(2) unfolding Init
    by (subst (asm) solo_step [of _ env s "W_send (Version (sftpProtocolVersion env))" s]) simp_all
  then show ?thesis
    using after_send [OF _ assms(1)] Init by simp
next
  case (Open i path)
  obtain h sA where st: "storeRequest s (newRequest env path) = (h, sA)"
    by (cases "storeRequest s (newRequest env path)")
  have nx: "nextRequest (view s) (newRequest env path) = (h, view sA)" and sep: "separate sA"
    using view_storeRequest [OF assms(1) st] by simp_all
  have "soloPass env (Suc (Suc (Suc (Suc (Suc n))))) sA (W_send (HandleReply i h)) = (pc1, s1)"
    using assms(2) st unfolding Open
    by (subst (asm) solo_step [of _ env s "W_send (HandleReply i h)" sA]) simp_all
  then show ?thesis
    using after_send [OF _ sep] Open nx by simp
next
  case (Opendir i path)
  obtain h sA where st: "storeRequest s (newRequest env path) = (h, sA)"
    by (cases "storeRequest s (newRequest env path)")
  have nx: "nextRequest (view s) (newRequest env path) = (h, view sA)" and sep: "separate sA"
    using view_storeRequest [OF assms(1) st] by simp_all
  have "soloPass env (Suc (Suc (Suc (Suc (Suc n))))) sA (W_send (HandleReply i h)) = (pc1, s1)"
    using assms(2) st unfolding Opendir
    by (subst (asm) solo_step [of _ env s "W_send (HandleReply i h)" sA]) simp_all
  then show ?thesis
    using after_send [OF _ sep] Opendir nx by simp
next
  case (Close i h)
  let ?sA = "s\<lparr>registry := (registry s)(h := None)\<rparr>"
  have sep: "separate ?sA"
    using assms(1) by (rule separate_closeRequest)
  have "soloPass env (Suc (Suc (Suc (Suc (Suc n))))) ?sA (W_send (statusFromError i None)) = (pc1, s1)"
    using assms(2) unfolding Close
    by (subst (asm) solo_step [of _ env s "W_send (statusFromError i None)" ?sA]) simp_all
  then have "afterSend (sendPacket env (view ?sA) (statusFromError i None)) = (outcome pc1, view s1)
      \<and> separate s1"
    using after_send [OF _ sep] by simp
  then show ?thesis
    using Close by (simp add: sendError_def view_closeRequest)
next
  case (HasHandle k i h)
  have "soloPass env (Suc (Suc (Suc (Suc (Suc n))))) s (W_lookup pkt i h) = (pc1, s1)"
    using assms(2) unfolding HasHandle
    by (subst (asm) solo_step [of _ env s "W_lookup (HasHandle k i h) i h" s]) simp_all
  then show ?thesis
    using solo_serve [OF assms(1)] HasHandle by simp
next
  case (HasPath k i path)
  obtain h sA where st: "storeRequest s (newRequest env path) = (h, sA)"
    by (cases "storeRequest s (newRequest env path)")
  have nx: "nextRequest (view s) (newRequest env path) = (h, view sA)" and sep: "separate sA"
    using view_storeRequest [OF assms(1) st] by simp_all
  have "soloPass env (Suc (Suc (Suc (Suc (Suc n))))) sA (W_lookup pkt i h) = (pc1, s1)"
    using assms(2) st unfolding HasPath
    by (subst (asm) solo_step [of _ env s "W_lookup (HasPath k i path) i h" sA]) simp_all
  then show ?thesis
    using solo_serve [OF sep] HasPath nx by simp
next
  case (Other k i)
  have "soloPass env (Suc (Suc (Suc (Suc (Suc n))))) s (W_lookup pkt i []) = (pc1, s1)"
    using assms(2) unfolding Other
    by (subst (asm) solo_step [of _ env s "W_lookup (Other k i) i []" s]) simp_all
  then show ?thesis
    using solo_serve [OF assms(1)] Other by simp
qed

lemma solo_dispatch:
  assumes "separate s" and "soloPass env 6 s (W_got pkt) = (pc1, s1)"
  shows "dispatch env (view s) pkt = (outcome pc1, view s1) \<and> separate s1"
proof -
  have six: "(6::nat) = Suc (Suc (Suc (Suc (Suc (Suc 0)))))"
    by simp
  show ?thesis
    using assms(2) unfolding six by (rule solo_dispatch_Suc [OF assms(1)])
qed

lemma separate_newSession: "separate (newSession env recvs)"
  by (simp add: separate_def newSession_def)

lemma workerMove_separate:
  assumes "workerMove env s pc = Some (pc1, s1)" and "separate s"
  shows "separate s1"
  using assms
proof (induction env s pc rule: workerMove.induct)
  case (3 env s i path)
  then show ?case
    using view_storeRequest [of s "newRequest env path"]
    by (auto split: prod.splits)
next
  case (4 env s i path)
  then show ?case
    using view_storeRequest [of s "newRequest env path"]
    by (auto split: prod.splits)
next
  case (5 env s i handle)
  then show ?case
    using separate_closeRequest [of s handle] by auto
next
  case (7 env s k i path)
  then show ?case
    using view_storeRequest [of s "newRequest env path"]
    by (auto split: prod.splits)
qed (auto simp: separate_def split: list.splits if_splits prod.splits option.splits)

lemma stepOf_separate:
  assumes "separate s" and "stepOf env th s = Some s1"
  shows "separate s1"
proof (cases th)
  case Reader
  then have "readerStep env s (reader s) = Some s1"
    using assms(2) by (simp add: stepOf_def split: if_splits)
  then show ?thesis
    using assms(1)
    by (cases "reader s") (auto simp: separate_def split: if_splits list.splits sum.splits)
next
  case (Worker w)
  then obtain pc1 s2 where m: "workerMove env s (pool s ! w) = Some (pc1, s2)"
    and s1: "s1 = s2\<lparr>pool := (pool s2)[w := pc1]\<rparr>"
    using assms(2)
    by (auto simp: stepOf_def split: if_splits option.splits)
  have "separate s2"
    using m assms(1) by (rule workerMove_separate)
  then show ?thesis
    unfolding s1 by (simp add: separate_def)
qed

subsection \<open>The session: what Serve returns\<close>

text \<open>
  A session that ends in a panic: the stream ends while a read on a handle that is not
  open waits in the channel. The worker that takes it calls \<^verbatim>\<open>populate\<close> on nil; the
  reader is left at \<^verbatim>\<open>wg.Wait()\<close> and nothing moves any more.
\<close>

lemma panic_leaves_Serve_waiting:
  "run demo_env [Reader, Reader, Worker 0, Worker 0, Worker 0, Worker 0]
     (draining\<lparr>pktChan := [HasHandle 5 1 ''/gone''], pool := [W_idle, W_idle]\<rparr>)
   = Some \<lparr>conn_in = [(1, [], None)], pktChan = [], reader = R_wait (Some EOF),
           pool = [W_exited, W_idle], registry = Map.empty, heap = [], wire = [],
           connShut = False, crashed = True\<rparr>
   \<and> final demo_env \<lparr>conn_in = [(1, [], None)], pktChan = [], reader = R_wait (Some EOF),
           pool = [W_exited, W_idle], registry = Map.empty, heap = [], wire = [],
           connShut = False, crashed = True\<rparr>"
  by (simp add: demo_env_def draining_def stepOf_def final_def)

text \<open>
  C2. A session whose second message is read without error and fails to decode: the
  reader leaves its loop there (the third message is never read), the packet queued before
  is served, every worker returns, and \<^verbatim>\<open>Serve\<close> returns nil, not the error of
  \<^verbatim>\<open>makePacket\<close>. (In every execution the error recorded at a decode failure is nil:
  \<open>decode_error_never_returned\<close>.)
\<close>

theorem decode_error_lost:
  "makePacket demo_env (9, [0]) = Inl (Failure ''unhandled packet type'')
   \<and> run demo_env
       [Reader, Reader, Reader, Worker 0, Worker 0, Worker 0, Reader, Worker 0, Worker 1, Reader]
       (newSession demo_env [(1, [], None), (9, [0], None), (1, [], None)])
     = Some \<lparr>conn_in = [(1, [], None)], pktChan = [], reader = R_done None,
             pool = [W_exited, W_exited], registry = Map.empty, heap = [],
             wire = [Version 3], connShut = False, crashed = False\<rparr>
   \<and> Serve demo_env
       [Reader, Reader, Reader, Worker 0, Worker 0, Worker 0, Reader, Worker 0, Worker 1, Reader]
       [(1, [], None), (9, [0], None), (1, [], None)] = Some None"
  by (simp add: demo_env_def newSession_def Serve_def stepOf_def view_def numeral_2_eq_2)




end
